theory Spec2Isabelle
  imports Main "HOL-Library.Word"
begin

section \<open>Memory model\<close>

text \<open>
  The container of \<^verbatim>\<open>single-linked-list.h\<close> owns a chain of heap-allocated nodes that
  hangs off a sentinel node \<^verbatim>\<open>head_\<close> embedded in the list object. Nodes live in an
  explicit store; a list object is a record passed next to the store.

  \<^item> A heap address is a natural number; \<^verbatim>\<open>nullptr\<close> is \<open>None\<close>.
  \<^item> \<^verbatim>\<open>new Node(...)\<close> takes the next address that was never handed out
    (\<open>next_free\<close>); allocation itself is assumed to succeed.
  \<^item> \<^verbatim>\<open>delete p\<close> removes the cell at \<open>p\<close>, so a later access through a stale
    pointer is visible as \<open>InvalidPointer\<close>.
  \<^item> \<^verbatim>\<open>assert(c)\<close> is a branch: a false condition ends the operation with
    \<open>AssertionFailed\<close>.
  \<^item> \<^verbatim>\<open>size_t\<close> is a 64-bit word, so \<^verbatim>\<open>++size_\<close> and \<^verbatim>\<open>--size_\<close> wrap around.
\<close>

type_synonym addr = nat

datatype error = AssertionFailed | InvalidPointer

text \<open>\<^verbatim>\<open>struct Node { Type value; Node* next_node = nullptr; }\<close>\<close>

record 'a Node =
  node_value :: 'a
  next_node :: "addr option"

record 'a heap =
  cells :: "addr \<rightharpoonup> 'a Node"
  next_free :: addr

text \<open>
  \<^verbatim>\<open>Node head_; size_t size_;\<close> The sentinel is part of the list object; its two fields
  \<^verbatim>\<open>head_.value\<close> and \<^verbatim>\<open>head_.next_node\<close> are kept as \<open>head_value\<close> and
  \<open>head_next_node\<close>. (\<open>size_\<close> is not a legal constant name, hence \<open>size_field\<close>.)
\<close>

record 'a SingleLinkedList =
  head_value :: 'a
  head_next_node :: "addr option"
  size_field :: "64 word"

text \<open>
  A non-null \<^verbatim>\<open>Node*\<close> held by an iterator is the address of the list's own sentinel
  (\<open>Head\<close>) or of a heap node (\<open>Cell a\<close>). \<^verbatim>\<open>BasicIterator\<close> wraps such a pointer or
  \<^verbatim>\<open>nullptr\<close>.
\<close>

datatype node_ref = Head | Cell addr

type_synonym BasicIterator = "node_ref option"

definition new_Node :: "'a \<Rightarrow> addr option \<Rightarrow> 'a heap \<Rightarrow> addr \<times> 'a heap" where
  "new_Node v nx h =
     (next_free h,
      h\<lparr>cells := (cells h)(next_free h \<mapsto> \<lparr>node_value = v, next_node = nx\<rparr>),
        next_free := Suc (next_free h)\<rparr>)"

definition delete_Node :: "addr \<Rightarrow> 'a heap \<Rightarrow> 'a heap" where
  "delete_Node a h = h\<lparr>cells := (cells h)(a := None)\<rparr>"

text \<open>Reading and writing \<^verbatim>\<open>p->next_node\<close> for a non-null node pointer \<open>p\<close>.\<close>

definition get_next :: "'a heap \<Rightarrow> 'a SingleLinkedList \<Rightarrow> node_ref \<Rightarrow> error + addr option" where
  "get_next h this r =
     (case r of
        Head \<Rightarrow> Inr (head_next_node this)
      | Cell a \<Rightarrow> (case cells h a of None \<Rightarrow> Inl InvalidPointer | Some n \<Rightarrow> Inr (next_node n)))"

definition set_next ::
  "node_ref \<Rightarrow> addr option \<Rightarrow> 'a heap \<Rightarrow> 'a SingleLinkedList \<Rightarrow> error + 'a heap \<times> 'a SingleLinkedList" where
  "set_next r p h this =
     (case r of
        Head \<Rightarrow> Inr (h, this\<lparr>head_next_node := p\<rparr>)
      | Cell a \<Rightarrow>
          (case cells h a of
             None \<Rightarrow> Inl InvalidPointer
           | Some n \<Rightarrow> Inr (h\<lparr>cells := (cells h)(a \<mapsto> n\<lparr>next_node := p\<rparr>)\<rparr>, this)))"

section \<open>Iterators\<close>

text \<open>
  The non-const accessors: \<^verbatim>\<open>begin()\<close> returns \<^verbatim>\<open>Iterator{ head_.next_node }\<close>,
  \<^verbatim>\<open>end()\<close> returns \<^verbatim>\<open>Iterator{ nullptr }\<close>, \<^verbatim>\<open>before_begin()\<close> returns
  \<^verbatim>\<open>Iterator{ &head_ }\<close>.
\<close>

definition begin_iter :: "'a SingleLinkedList \<Rightarrow> BasicIterator" where
  "begin_iter this = map_option Cell (head_next_node this)"

definition end_iter :: BasicIterator where
  "end_iter = None"

definition before_begin :: BasicIterator where
  "before_begin = Some Head"

text \<open>
  The const accessors are written in terms of each other:
  \<^verbatim>\<open>ConstIterator begin() const { return cbegin(); }\<close>,
  \<^verbatim>\<open>ConstIterator cbegin() const { return begin(); }\<close>,
  \<^verbatim>\<open>ConstIterator end() const { return cend(); }\<close>,
  \<^verbatim>\<open>ConstIterator cend() const { return end(); }\<close>.
  Inside a const member function \<^verbatim>\<open>this\<close> points to a const object, so the call
  \<^verbatim>\<open>begin()\<close> in \<^verbatim>\<open>cbegin\<close> can only select the const overload of \<^verbatim>\<open>begin\<close>
  (likewise \<^verbatim>\<open>end()\<close> in \<^verbatim>\<open>cend\<close>). The four functions therefore form two cycles
  of mutual recursion, modelled as one recursive function over the name of the accessor
  called; the result \<open>None\<close> is a call that does not return.
\<close>

datatype const_accessor = Begin_const | Cbegin | End_const | Cend

partial_function (option) const_accessor_call ::
  "const_accessor \<Rightarrow> 'a SingleLinkedList \<Rightarrow> BasicIterator option" where
  "const_accessor_call f this =
     (case f of
        Begin_const \<Rightarrow> const_accessor_call Cbegin this
      | Cbegin \<Rightarrow> const_accessor_call Begin_const this
      | End_const \<Rightarrow> const_accessor_call Cend this
      | Cend \<Rightarrow> const_accessor_call End_const this)"

definition begin_const :: "'a SingleLinkedList \<Rightarrow> BasicIterator option" where
  "begin_const this = const_accessor_call Begin_const this"

definition end_const :: "'a SingleLinkedList \<Rightarrow> BasicIterator option" where
  "end_const this = const_accessor_call End_const this"

definition cbegin :: "'a SingleLinkedList \<Rightarrow> BasicIterator option" where
  "cbegin this = const_accessor_call Cbegin this"

definition cend :: "'a SingleLinkedList \<Rightarrow> BasicIterator option" where
  "cend this = const_accessor_call Cend this"

text \<open>
  \<^verbatim>\<open>operator++\<close>: \<^verbatim>\<open>assert(node_ != nullptr); node_ = node_->next_node;\<close>
\<close>

definition iter_inc :: "'a heap \<Rightarrow> 'a SingleLinkedList \<Rightarrow> BasicIterator \<Rightarrow> error + BasicIterator" where
  "iter_inc h this it =
     (case it of
        None \<Rightarrow> Inl AssertionFailed
      | Some r \<Rightarrow> (case get_next h this r of Inl e \<Rightarrow> Inl e | Inr p \<Rightarrow> Inr (map_option Cell p)))"

text \<open>
  \<^verbatim>\<open>operator*\<close>: \<^verbatim>\<open>assert(node_ != nullptr); return node_->value;\<close> On the before-begin
  iterator this returns the value stored in the sentinel of the list \<open>this\<close> the
  iterator belongs to.
\<close>

definition iter_deref :: "'a heap \<Rightarrow> 'a SingleLinkedList \<Rightarrow> BasicIterator \<Rightarrow> error + 'a" where
  "iter_deref h this it =
     (case it of
        None \<Rightarrow> Inl AssertionFailed
      | Some Head \<Rightarrow> Inr (head_value this)
      | Some (Cell a) \<Rightarrow>
          (case cells h a of None \<Rightarrow> Inl InvalidPointer | Some n \<Rightarrow> Inr (node_value n)))"

section \<open>The list operations\<close>

text \<open>
  \<^verbatim>\<open>SingleLinkedList() : size_(0) {}\<close> The sentinel is default-initialised: its link is
  \<^verbatim>\<open>nullptr\<close> and its value is whatever a default-initialised \<^verbatim>\<open>Type\<close> holds, the
  parameter \<open>dflt\<close>.
\<close>

definition SingleLinkedList_default :: "'a \<Rightarrow> 'a SingleLinkedList" where
  "SingleLinkedList_default dflt = \<lparr>head_value = dflt, head_next_node = None, size_field = 0\<rparr>"

definition GetSize :: "'a SingleLinkedList \<Rightarrow> 64 word" where
  "GetSize this = size_field this"

definition IsEmpty :: "'a SingleLinkedList \<Rightarrow> bool" where
  "IsEmpty this \<longleftrightarrow> size_field this = 0"

text \<open>\<^verbatim>\<open>swap\<close>: two \<^verbatim>\<open>std::swap\<close> calls, on the head links and on the counts.\<close>

definition swap_lists :: "'a SingleLinkedList \<Rightarrow> 'a SingleLinkedList \<Rightarrow> 'a SingleLinkedList \<times> 'a SingleLinkedList" where
  "swap_lists this other =
     (this\<lparr>head_next_node := head_next_node other, size_field := size_field other\<rparr>,
      other\<lparr>head_next_node := head_next_node this, size_field := size_field this\<rparr>)"

definition PushFront :: "'a \<Rightarrow> 'a heap \<Rightarrow> 'a SingleLinkedList \<Rightarrow> 'a heap \<times> 'a SingleLinkedList" where
  "PushFront v h this =
     (case new_Node v (head_next_node this) h of
        (a, h1) \<Rightarrow> (h1, this\<lparr>head_next_node := Some a, size_field := size_field this + 1\<rparr>))"

text \<open>
  \<^verbatim>\<open>Clear\<close>: while the head link is not null, unlink the first node, delete it and
  decrement the count.
\<close>

partial_function (option) Clear ::
  "'a heap \<Rightarrow> 'a SingleLinkedList \<Rightarrow> (error + 'a heap \<times> 'a SingleLinkedList) option" where
  "Clear h this =
     (case head_next_node this of
        None \<Rightarrow> Some (Inr (h, this))
      | Some temp \<Rightarrow>
          (case cells h temp of
             None \<Rightarrow> Some (Inl InvalidPointer)
           | Some n \<Rightarrow>
               Clear (delete_Node temp h)
                     (this\<lparr>head_next_node := next_node n, size_field := size_field this - 1\<rparr>)))"

definition PopFront :: "'a heap \<Rightarrow> 'a SingleLinkedList \<Rightarrow> error + 'a heap \<times> 'a SingleLinkedList" where
  "PopFront h this =
     (if IsEmpty this then Inl AssertionFailed
      else case head_next_node this of
        None \<Rightarrow> Inl InvalidPointer
      | Some deleted_node \<Rightarrow>
          (case cells h deleted_node of
             None \<Rightarrow> Inl InvalidPointer
           | Some n \<Rightarrow>
               Inr (delete_Node deleted_node h,
                    this\<lparr>head_next_node := next_node n, size_field := size_field this - 1\<rparr>)))"

text \<open>
  \<^verbatim>\<open>InsertAfter\<close>:
  \<^verbatim>\<open>assert(pos != end()); pos.node_->next_node = new Node(value, nullptr); ++size_;
  return Iterator{ pos.node_->next_node };\<close>
\<close>

definition InsertAfter ::
  "'a heap \<Rightarrow> 'a SingleLinkedList \<Rightarrow> BasicIterator \<Rightarrow> 'a
     \<Rightarrow> error + 'a heap \<times> 'a SingleLinkedList \<times> BasicIterator" where
  "InsertAfter h this pos v =
     (if \<not> (pos \<noteq> end_iter) then Inl AssertionFailed
      else case pos of
        None \<Rightarrow> Inl InvalidPointer
      | Some r \<Rightarrow>
          (case new_Node v None h of
             (a, h1) \<Rightarrow>
               (case set_next r (Some a) h1 this of
                  Inl e \<Rightarrow> Inl e
                | Inr (h2, this2) \<Rightarrow>
                    (case get_next h2 this2 r of
                       Inl e \<Rightarrow> Inl e
                     | Inr p \<Rightarrow>
                         Inr (h2, this2\<lparr>size_field := size_field this2 + 1\<rparr>,
                              map_option Cell p)))))"

text \<open>
  \<^verbatim>\<open>EraseAfter\<close>:
  \<^verbatim>\<open>assert(!IsEmpty()); assert(pos.node_ != nullptr);
  auto temp = pos.node_->next_node->next_node; delete pos.node_->next_node;
  pos.node_->next_node = temp; --size_; return Iterator{ pos.node_->next_node };\<close>
\<close>

definition EraseAfter ::
  "'a heap \<Rightarrow> 'a SingleLinkedList \<Rightarrow> BasicIterator
     \<Rightarrow> error + 'a heap \<times> 'a SingleLinkedList \<times> BasicIterator" where
  "EraseAfter h this pos =
     (if IsEmpty this then Inl AssertionFailed
      else case pos of
        None \<Rightarrow> Inl AssertionFailed
      | Some r \<Rightarrow>
          (case get_next h this r of
             Inl e \<Rightarrow> Inl e
           | Inr None \<Rightarrow> Inl InvalidPointer
           | Inr (Some d) \<Rightarrow>
               (case cells h d of
                  None \<Rightarrow> Inl InvalidPointer
                | Some n \<Rightarrow>
                    (case set_next r (next_node n) (delete_Node d h) this of
                       Inl e \<Rightarrow> Inl e
                     | Inr (h2, this2) \<Rightarrow>
                         (case get_next h2 this2 r of
                            Inl e \<Rightarrow> Inl e
                          | Inr p \<Rightarrow>
                              Inr (h2, this2\<lparr>size_field := size_field this2 - 1\<rparr>,
                                   map_option Cell p))))))"

text \<open>
  \<^verbatim>\<open>AddToHead(from, to)\<close> builds the range into a scratch list \<^verbatim>\<open>tmp\<close> through a
  pointer \<^verbatim>\<open>node_ptr\<close> to the link to fill next, swaps \<^verbatim>\<open>tmp\<close> with \<^verbatim>\<open>*this\<close>, and
  destroys \<^verbatim>\<open>tmp\<close> (whose destructor calls \<^verbatim>\<open>Clear\<close>). \<^verbatim>\<open>node_ptr\<close> points to the
  \<^verbatim>\<open>next_node\<close> field of a node and is modelled by that node.

  The template is instantiated twice. For \<^verbatim>\<open>std::initializer_list\<close> the range is an
  array, here the list of its values.
\<close>

fun AddToHead_loop ::
  "'a list \<Rightarrow> node_ref \<Rightarrow> 'a heap \<Rightarrow> 'a SingleLinkedList \<Rightarrow> error + 'a heap \<times> 'a SingleLinkedList" where
  "AddToHead_loop [] node_ptr h tmp = Inr (h, tmp)"
| "AddToHead_loop (x # xs) node_ptr h tmp =
     (case get_next h tmp node_ptr of
        Inl e \<Rightarrow> Inl e
      | Inr (Some q) \<Rightarrow> Inl AssertionFailed
      | Inr None \<Rightarrow>
          (case new_Node x None h of
             (a, h1) \<Rightarrow>
               (case set_next node_ptr (Some a) h1 tmp of
                  Inl e \<Rightarrow> Inl e
                | Inr (h2, tmp2) \<Rightarrow>
                    AddToHead_loop xs (Cell a) h2 (tmp2\<lparr>size_field := size_field tmp2 + 1\<rparr>))))"

text \<open>The tail of \<^verbatim>\<open>AddToHead\<close>: \<^verbatim>\<open>swap(tmp)\<close>, then the destructor of \<^verbatim>\<open>tmp\<close>.\<close>

definition adopt_tmp ::
  "'a heap \<Rightarrow> 'a SingleLinkedList \<Rightarrow> 'a SingleLinkedList \<Rightarrow> (error + 'a heap \<times> 'a SingleLinkedList) option" where
  "adopt_tmp h this tmp =
     (case swap_lists this tmp of
        (this1, tmp1) \<Rightarrow>
          (case Clear h tmp1 of
             None \<Rightarrow> None
           | Some (Inl e) \<Rightarrow> Some (Inl e)
           | Some (Inr (h2, tmp2)) \<Rightarrow> Some (Inr (h2, this1))))"

definition AddToHead ::
  "'a \<Rightarrow> 'a list \<Rightarrow> 'a heap \<Rightarrow> 'a SingleLinkedList
     \<Rightarrow> (error + 'a heap \<times> 'a SingleLinkedList) option" where
  "AddToHead dflt values h this =
     (case AddToHead_loop values Head h (SingleLinkedList_default dflt) of
        Inl e \<Rightarrow> Some (Inl e)
      | Inr (h1, tmp) \<Rightarrow> adopt_tmp h1 this tmp)"

text \<open>
  For the copy constructor the range is a pair of list iterators into \<^verbatim>\<open>other\<close>, read
  with \<^verbatim>\<open>operator*\<close> and advanced with \<^verbatim>\<open>operator++\<close> while the new nodes are allocated.
\<close>

partial_function (option) AddToHead_iter_loop ::
  "BasicIterator \<Rightarrow> BasicIterator \<Rightarrow> node_ref \<Rightarrow> 'a heap \<Rightarrow> 'a SingleLinkedList \<Rightarrow> 'a SingleLinkedList
     \<Rightarrow> (error + 'a heap \<times> 'a SingleLinkedList) option" where
  "AddToHead_iter_loop it_from it_to node_ptr h other tmp =
     (if it_from = it_to then Some (Inr (h, tmp))
      else case get_next h tmp node_ptr of
        Inl e \<Rightarrow> Some (Inl e)
      | Inr (Some q) \<Rightarrow> Some (Inl AssertionFailed)
      | Inr None \<Rightarrow>
          (case iter_deref h other it_from of
             Inl e \<Rightarrow> Some (Inl e)
           | Inr x \<Rightarrow>
               (case new_Node x None h of
                  (a, h1) \<Rightarrow>
                    (case set_next node_ptr (Some a) h1 tmp of
                       Inl e \<Rightarrow> Some (Inl e)
                     | Inr (h2, tmp2) \<Rightarrow>
                         (case iter_inc h2 other it_from of
                            Inl e \<Rightarrow> Some (Inl e)
                          | Inr it_next \<Rightarrow>
                              AddToHead_iter_loop it_next it_to (Cell a) h2 other
                                (tmp2\<lparr>size_field := size_field tmp2 + 1\<rparr>))))))"

definition AddToHead_iter ::
  "'a \<Rightarrow> BasicIterator \<Rightarrow> BasicIterator \<Rightarrow> 'a heap \<Rightarrow> 'a SingleLinkedList \<Rightarrow> 'a SingleLinkedList
     \<Rightarrow> (error + 'a heap \<times> 'a SingleLinkedList) option" where
  "AddToHead_iter dflt it_from it_to h other this =
     (case AddToHead_iter_loop it_from it_to Head h other (SingleLinkedList_default dflt) of
        None \<Rightarrow> None
      | Some (Inl e) \<Rightarrow> Some (Inl e)
      | Some (Inr (h1, tmp)) \<Rightarrow> adopt_tmp h1 this tmp)"

text \<open>
  \<^verbatim>\<open>SingleLinkedList(std::initializer_list<Type> values)\<close> has no initialiser for
  \<^verbatim>\<open>size_\<close>: the count the object starts with is whatever the memory held, the
  parameter \<open>garbage\<close>.
\<close>

definition SingleLinkedList_init ::
  "64 word \<Rightarrow> 'a \<Rightarrow> 'a list \<Rightarrow> 'a heap \<Rightarrow> (error + 'a heap \<times> 'a SingleLinkedList) option" where
  "SingleLinkedList_init garbage dflt values h =
     AddToHead dflt values h \<lparr>head_value = dflt, head_next_node = None, size_field = garbage\<rparr>"

text \<open>
  \<^verbatim>\<open>SingleLinkedList(const SingleLinkedList& other) : size_(other.size_)
  { assert(size_ == 0 && head_.next_node == nullptr);
    AddToHead(other.begin(), other.end()); }\<close>
  \<^verbatim>\<open>other\<close> is a const reference, so \<^verbatim>\<open>other.begin()\<close> and \<^verbatim>\<open>other.end()\<close> are the
  const accessors.
\<close>

definition SingleLinkedList_copy ::
  "'a \<Rightarrow> 'a heap \<Rightarrow> 'a SingleLinkedList \<Rightarrow> (error + 'a heap \<times> 'a SingleLinkedList) option" where
  "SingleLinkedList_copy dflt h other =
     (let this = \<lparr>head_value = dflt, head_next_node = None, size_field = size_field other\<rparr>
      in if \<not> (size_field this = 0 \<and> head_next_node this = None) then Some (Inl AssertionFailed)
         else Option.bind (begin_const other) (\<lambda>it_from.
              Option.bind (end_const other) (\<lambda>it_to.
                AddToHead_iter dflt it_from it_to h other this)))"

section \<open>Comparison operators\<close>

text \<open>
  \<^verbatim>\<open>std::equal(first1, last1, first2)\<close> and
  \<^verbatim>\<open>std::lexicographical_compare(first1, last1, first2, last2)\<close> as the C++ standard
  describes them, running over this container's iterators: \<open>l1\<close> is the list the first
  range walks, \<open>l2\<close> the list the second one walks.
\<close>

partial_function (option) std_equal ::
  "'a heap \<Rightarrow> 'a SingleLinkedList \<Rightarrow> 'a SingleLinkedList
     \<Rightarrow> BasicIterator \<Rightarrow> BasicIterator \<Rightarrow> BasicIterator \<Rightarrow> (error + bool) option" where
  "std_equal h l1 l2 first1 last1 first2 =
     (if first1 = last1 then Some (Inr True)
      else case iter_deref h l1 first1 of
        Inl e \<Rightarrow> Some (Inl e)
      | Inr x \<Rightarrow>
          (case iter_deref h l2 first2 of
             Inl e \<Rightarrow> Some (Inl e)
           | Inr y \<Rightarrow>
               if \<not> (x = y) then Some (Inr False)
               else (case iter_inc h l1 first1 of
                       Inl e \<Rightarrow> Some (Inl e)
                     | Inr next1 \<Rightarrow>
                         (case iter_inc h l2 first2 of
                            Inl e \<Rightarrow> Some (Inl e)
                          | Inr next2 \<Rightarrow> std_equal h l1 l2 next1 last1 next2))))"

partial_function (option) lexicographical_compare ::
  "('a::linorder) heap \<Rightarrow> 'a SingleLinkedList \<Rightarrow> 'a SingleLinkedList
     \<Rightarrow> BasicIterator \<Rightarrow> BasicIterator \<Rightarrow> BasicIterator \<Rightarrow> BasicIterator
     \<Rightarrow> (error + bool) option" where
  "lexicographical_compare h l1 l2 first1 last1 first2 last2 =
     (if first1 \<noteq> last1 \<and> first2 \<noteq> last2 then
        (case iter_deref h l1 first1 of
           Inl e \<Rightarrow> Some (Inl e)
         | Inr x \<Rightarrow>
             (case iter_deref h l2 first2 of
                Inl e \<Rightarrow> Some (Inl e)
              | Inr y \<Rightarrow>
                  if x < y then Some (Inr True)
                  else if y < x then Some (Inr False)
                  else (case iter_inc h l1 first1 of
                          Inl e \<Rightarrow> Some (Inl e)
                        | Inr next1 \<Rightarrow>
                            (case iter_inc h l2 first2 of
                               Inl e \<Rightarrow> Some (Inl e)
                             | Inr next2 \<Rightarrow>
                                 lexicographical_compare h l1 l2 next1 last1 next2 last2))))
      else Some (Inr (first1 = last1 \<and> first2 \<noteq> last2)))"

definition negate :: "(error + bool) option \<Rightarrow> (error + bool) option" where
  "negate r = map_option (map_sum id Not) r"

text \<open>
  \<^verbatim>\<open>operator==\<close>. Line 332 of the source reads
  \<^verbatim>\<open>return (lhs.GetSize() == rhs.GetSize()) () && &&std::equal(lhs.cbegin(), lhs.cend(), rhs.cbegin());\<close>
  The stray \<^verbatim>\<open>()\<close> and the doubled \<^verbatim>\<open>&&\<close> are not C++; the line is taken as the
  short-circuit conjunction of its two operands. Both operands of the comparison
  operators are const references, so every accessor they call is a const one.
\<close>

definition op_eq :: "'a heap \<Rightarrow> 'a SingleLinkedList \<Rightarrow> 'a SingleLinkedList \<Rightarrow> (error + bool) option" where
  "op_eq h lhs rhs =
     (if GetSize lhs = GetSize rhs then
        Option.bind (cbegin lhs) (\<lambda>first1.
          Option.bind (cend lhs) (\<lambda>last1.
            Option.bind (cbegin rhs) (\<lambda>first2.
              std_equal h lhs rhs first1 last1 first2)))
      else Some (Inr False))"

definition op_ne :: "'a heap \<Rightarrow> 'a SingleLinkedList \<Rightarrow> 'a SingleLinkedList \<Rightarrow> (error + bool) option" where
  "op_ne h lhs rhs = negate (op_eq h lhs rhs)"

definition op_lt ::
  "('a::linorder) heap \<Rightarrow> 'a SingleLinkedList \<Rightarrow> 'a SingleLinkedList \<Rightarrow> (error + bool) option" where
  "op_lt h lhs rhs =
     Option.bind (begin_const lhs) (\<lambda>first1.
       Option.bind (end_const lhs) (\<lambda>last1.
         Option.bind (begin_const rhs) (\<lambda>first2.
           Option.bind (end_const rhs) (\<lambda>last2.
             lexicographical_compare h lhs rhs first1 last1 first2 last2))))"

definition op_le ::
  "('a::linorder) heap \<Rightarrow> 'a SingleLinkedList \<Rightarrow> 'a SingleLinkedList \<Rightarrow> (error + bool) option" where
  "op_le h lhs rhs = negate (op_lt h rhs lhs)"

definition op_gt ::
  "('a::linorder) heap \<Rightarrow> 'a SingleLinkedList \<Rightarrow> 'a SingleLinkedList \<Rightarrow> (error + bool) option" where
  "op_gt h lhs rhs = op_lt h rhs lhs"

text \<open>\<^verbatim>\<open>operator>=\<close>: \<^verbatim>\<open>return !(lhs < lhs);\<close>\<close>

definition op_ge ::
  "('a::linorder) heap \<Rightarrow> 'a SingleLinkedList \<Rightarrow> 'a SingleLinkedList \<Rightarrow> (error + bool) option" where
  "op_ge h lhs rhs = negate (op_lt h lhs lhs)"

section \<open>The abstraction: which sequence a list object holds\<close>

text \<open>
  \<open>seg h p ns q\<close>: following \<^verbatim>\<open>next_node\<close> links from pointer \<open>p\<close> visits exactly the
  nodes \<open>ns\<close>, each given as (address, value), and arrives at \<open>q\<close>. \<open>nodes h p ns\<close>:
  the chain from \<open>p\<close> is \<open>ns\<close> and ends in \<^verbatim>\<open>nullptr\<close>.
\<close>

primrec seg :: "'a heap \<Rightarrow> addr option \<Rightarrow> (addr \<times> 'a) list \<Rightarrow> addr option \<Rightarrow> bool" where
  "seg h p [] q \<longleftrightarrow> p = q"
| "seg h p (x # xs) q \<longleftrightarrow>
     p = Some (fst x) \<and>
     (case cells h (fst x) of
        None \<Rightarrow> False
      | Some n \<Rightarrow> node_value n = snd x \<and> seg h (next_node n) xs q)"

definition nodes :: "'a heap \<Rightarrow> addr option \<Rightarrow> (addr \<times> 'a) list \<Rightarrow> bool" where
  "nodes h p ns \<longleftrightarrow> seg h p ns None"

text \<open>
  The invariant of the data model: the chain from the sentinel is finite, and the stored
  count is the number of its nodes.
\<close>

definition list_inv :: "'a heap \<Rightarrow> 'a SingleLinkedList \<Rightarrow> (addr \<times> 'a) list \<Rightarrow> bool" where
  "list_inv h this ns \<longleftrightarrow> nodes h (head_next_node this) ns \<and> unat (size_field this) = length ns"

text \<open>The allocator's invariant: no cell lives at an address not handed out yet.\<close>

definition heap_ok :: "'a heap \<Rightarrow> bool" where
  "heap_ok h \<longleftrightarrow> (\<forall>a. next_free h \<le> a \<longrightarrow> cells h a = None)"

text \<open>The iterator that references the last node of a prefix \<open>pre\<close> of the chain.\<close>

definition iter_after :: "(addr \<times> 'a) list \<Rightarrow> BasicIterator" where
  "iter_after pre = (if pre = [] then Some Head else Some (Cell (fst (last pre))))"

text \<open>The iterator that references the first node of a suffix \<open>suf\<close> of the chain.\<close>

definition iter_at :: "(addr \<times> 'a) list \<Rightarrow> BasicIterator" where
  "iter_at suf = (case suf of [] \<Rightarrow> None | x # xs \<Rightarrow> Some (Cell (fst x)))"

section \<open>Example states\<close>

text \<open>
  \<open>heap12\<close> with \<open>list12\<close>: the list \<open>1, 2\<close> in the cells 0 and 1, as the
  initializer-list constructor builds it in the empty store. \<open>heapAB\<close>: two separate
  one-element lists, \<open>listA\<close> holding 1 and \<open>listB\<close> holding 2.
\<close>

definition empty_heap :: "nat heap" where
  "empty_heap = \<lparr>cells = Map.empty, next_free = 0\<rparr>"

definition heap12 :: "nat heap" where
  "heap12 = \<lparr>cells = [0 \<mapsto> \<lparr>node_value = 1, next_node = Some 1\<rparr>,
                      1 \<mapsto> \<lparr>node_value = 2, next_node = None\<rparr>], next_free = 2\<rparr>"

definition list12 :: "nat SingleLinkedList" where
  "list12 = \<lparr>head_value = 0, head_next_node = Some 0, size_field = 2\<rparr>"

definition heapAB :: "nat heap" where
  "heapAB = \<lparr>cells = [0 \<mapsto> \<lparr>node_value = 1, next_node = None\<rparr>,
                      1 \<mapsto> \<lparr>node_value = 2, next_node = None\<rparr>], next_free = 2\<rparr>"

definition listA :: "nat SingleLinkedList" where
  "listA = \<lparr>head_value = 0, head_next_node = Some 0, size_field = 1\<rparr>"

definition listB :: "nat SingleLinkedList" where
  "listB = \<lparr>head_value = 0, head_next_node = Some 1, size_field = 1\<rparr>"

section \<open>Chains in the store\<close>

lemma seg_cells_eq:
  "(\<And>a. a \<in> fst ` set ns \<Longrightarrow> cells h' a = cells h a) \<Longrightarrow> seg h' p ns q = seg h p ns q"
  by (induction ns arbitrary: p) (auto split: option.splits)

lemma seg_append: "seg h p (as @ bs) q \<longleftrightarrow> (\<exists>r. seg h p as r \<and> seg h r bs q)"
  by (induction as arbitrary: p) (auto split: option.splits)

lemma nodes_unique: "nodes h p as \<Longrightarrow> nodes h p bs \<Longrightarrow> as = bs"
  unfolding nodes_def
proof (induction as arbitrary: p bs)
  case Nil
  then show ?case by (cases bs) auto
next
  case (Cons a as)
  then show ?case by (cases bs) (auto split: option.splits simp: prod_eq_iff)
qed

lemma nodes_head_fresh:
  assumes "nodes h p (x # xs)"
  shows "fst x \<notin> fst ` set xs"
proof
  assume "fst x \<in> fst ` set xs"
  then obtain y where y: "y \<in> set xs" "fst y = fst x" by auto
  then obtain us vs where xs: "xs = us @ y # vs" by (auto simp: in_set_conv_decomp)
  from assms have p: "p = Some (fst x)" by (simp add: nodes_def)
  from assms xs have "seg h p ((x # us) @ y # vs) None" by (simp add: nodes_def)
  then obtain r where r: "seg h p (x # us) r" "seg h r (y # vs) None"
    unfolding seg_append by blast
  from r(2) have "r = Some (fst y)" by simp
  with y p r(2) have "nodes h p (y # vs)" by (simp add: nodes_def)
  with assms have "x # xs = y # vs" by (rule nodes_unique)
  with xs show False by simp
qed

lemma nodes_tail: "nodes h p (x # xs) \<Longrightarrow> \<exists>n. cells h (fst x) = Some n \<and> node_value n = snd x \<and> nodes h (next_node n) xs"
  by (auto simp: nodes_def split: option.splits)

lemma nodes_distinct: "nodes h p ns \<Longrightarrow> distinct (map fst ns)"
proof (induction ns arbitrary: p)
  case Nil
  then show ?case by simp
next
  case (Cons x xs)
  from nodes_tail [OF Cons.prems]
  obtain n where "cells h (fst x) = Some n" "nodes h (next_node n) xs" by blast
  then have "distinct (map fst xs)" using Cons.IH by blast
  with nodes_head_fresh [OF Cons.prems] show ?case by simp
qed

lemma seg_allocated: "seg h p ns q \<Longrightarrow> a \<in> fst ` set ns \<Longrightarrow> cells h a \<noteq> None"
  by (induction ns arbitrary: p) (auto split: option.splits)

lemma heap_ok_below: "heap_ok h \<Longrightarrow> cells h a \<noteq> None \<Longrightarrow> a < next_free h"
  unfolding heap_ok_def by (metis not_le)


lemma unat_inc: "Suc (unat (w :: 64 word)) < 2 ^ 64 \<Longrightarrow> unat (w + 1) = Suc (unat w)"
  using unat_add_lem [of w 1] by simp

lemma unat_dec: "unat (w :: 64 word) = Suc n \<Longrightarrow> unat (w - 1) = n"
  using unat_minus_one [of w] by (cases "w = 0") auto

lemma nodes_iter_at: "nodes h q suf \<Longrightarrow> map_option Cell q = iter_at suf"
  by (cases suf) (auto simp: nodes_def iter_at_def)

lemma nodes_cells_eq:
  "(\<And>a. a \<in> fst ` set ns \<Longrightarrow> cells h' a = cells h a) \<Longrightarrow> nodes h' p ns = nodes h p ns"
  unfolding nodes_def by (rule seg_cells_eq)

section \<open>What the operations do to a well-formed list\<close>

lemma PushFront_list_inv:
  assumes ok: "heap_ok h" and inv: "list_inv h this ns" and bound: "Suc (length ns) < 2 ^ 64"
  shows "list_inv (fst (PushFront v h this)) (snd (PushFront v h this)) ((next_free h, v) # ns)"
    and "heap_ok (fst (PushFront v h this))"
proof -
  let ?a = "next_free h"
  have fresh: "?a \<notin> fst ` set ns"
  proof
    assume "?a \<in> fst ` set ns"
    with inv have "cells h ?a \<noteq> None" unfolding list_inv_def nodes_def by (blast dest: seg_allocated)
    with ok show False by (auto simp: heap_ok_def)
  qed
  let ?h' = "fst (PushFront v h this)"
  have "nodes ?h' (head_next_node this) ns = nodes h (head_next_node this) ns"
    using fresh by (intro nodes_cells_eq) (simp add: PushFront_def new_Node_def, blast)
  with inv bound
  show "list_inv (fst (PushFront v h this)) (snd (PushFront v h this)) ((next_free h, v) # ns)"
    by (simp add: list_inv_def nodes_def PushFront_def new_Node_def unat_inc)
  show "heap_ok (fst (PushFront v h this))"
    using ok by (simp add: heap_ok_def PushFront_def new_Node_def)
qed

lemma PopFront_list_inv:
  assumes inv: "list_inv h this (x # ns)"
  shows "\<exists>this'. PopFront h this = Inr (delete_Node (fst x) h, this')
           \<and> list_inv (delete_Node (fst x) h) this' ns
           \<and> size_field this' = size_field this - 1"
proof -
  from inv have nd: "nodes h (head_next_node this) (x # ns)"
    and sz: "unat (size_field this) = Suc (length ns)"
    by (simp_all add: list_inv_def)
  from nodes_tail [OF nd] obtain n where n: "cells h (fst x) = Some n" "nodes h (next_node n) ns"
    by blast
  from nd have hd: "head_next_node this = Some (fst x)" by (simp add: nodes_def)
  from sz have ne: "\<not> IsEmpty this" by (auto simp: IsEmpty_def)
  have "nodes (delete_Node (fst x) h) (next_node n) ns = nodes h (next_node n) ns"
    using nodes_head_fresh [OF nd] by (intro nodes_cells_eq) (simp add: delete_Node_def, blast)
  with n hd ne sz show ?thesis
    by (simp add: PopFront_def list_inv_def unat_dec)
qed


lemma seg_appendI: "seg h p as r \<Longrightarrow> seg h r bs q \<Longrightarrow> seg h p (as @ bs) q"
  unfolding seg_append by blast

lemma seg_last_cell:
  assumes "seg h p (pre @ [y]) q"
  shows "\<exists>n. cells h (fst y) = Some n \<and> node_value n = snd y \<and> next_node n = q"
proof -
  from assms obtain r where "seg h r [y] q" unfolding seg_append by blast
  then show ?thesis by (auto split: option.splits)
qed

lemma seg_snoc_upd:
  assumes sg: "seg h p (pre @ [y]) q" and d: "fst y \<notin> fst ` set pre"
    and c: "cells h (fst y) = Some n"
  shows "seg (h\<lparr>cells := (cells h)(fst y \<mapsto> n\<lparr>next_node := q'\<rparr>)\<rparr>) p (pre @ [y]) q'"
proof -
  let ?h' = "h\<lparr>cells := (cells h)(fst y \<mapsto> n\<lparr>next_node := q'\<rparr>)\<rparr>"
  from sg obtain r where r: "seg h p pre r" "seg h r [y] q" unfolding seg_append by blast
  have "seg ?h' p pre r = seg h p pre r"
    using d by (intro seg_cells_eq) (simp, blast)
  with r(1) have 1: "seg ?h' p pre r" by simp
  from r(2) c have 2: "seg ?h' r [y] q'" by simp
  from 1 2 show ?thesis unfolding seg_append by blast
qed


lemma EraseAfter_nodes:
  assumes nd: "nodes h (head_next_node this) (pre @ x # suf)" and ne: "\<not> IsEmpty this"
  shows "\<exists>h' this'. EraseAfter h this (iter_after pre) = Inr (h', this', iter_at suf)
           \<and> nodes h' (head_next_node this') (pre @ suf)
           \<and> cells h' (fst x) = None
           \<and> next_free h' = next_free h
           \<and> size_field this' = size_field this - 1"
proof -
  from nd have "seg h (head_next_node this) (pre @ x # suf) None" by (simp add: nodes_def)
  then obtain r where r: "seg h (head_next_node this) pre r" "seg h r (x # suf) None"
    unfolding seg_append by blast
  from r(2) have rx: "r = Some (fst x)" by simp
  from r(2) have "nodes h r (x # suf)" by (simp add: nodes_def)
  from nodes_tail [OF this] obtain nx
    where nx: "cells h (fst x) = Some nx" "nodes h (next_node nx) suf" by blast
  from nodes_distinct [OF nd]
  have dist: "fst x \<notin> fst ` set pre" "fst x \<notin> fst ` set suf" "fst ` set pre \<inter> fst ` set suf = {}"
    "distinct (map fst pre)"
    by auto
  let ?h1 = "delete_Node (fst x) h"
  have it: "map_option Cell (next_node nx) = iter_at suf" using nx(2) by (rule nodes_iter_at)
  show ?thesis
  proof (cases pre rule: rev_cases)
    case Nil
    with r rx have hd: "head_next_node this = Some (fst x)" by simp
    have "nodes ?h1 (next_node nx) suf = nodes h (next_node nx) suf"
      using dist(2) by (intro nodes_cells_eq) (simp add: delete_Node_def, blast)
    with nx hd ne Nil it show ?thesis
      by (simp add: EraseAfter_def iter_after_def get_next_def set_next_def delete_Node_def)
  next
    case (snoc pre' y)
    from r(1) rx snoc have sg: "seg h (head_next_node this) (pre' @ [y]) (Some (fst x))" by simp
    from seg_last_cell [OF sg] obtain ny
      where ny: "cells h (fst y) = Some ny" "next_node ny = Some (fst x)" by blast
    from dist snoc have yx: "fst y \<noteq> fst x" and ypre: "fst y \<notin> fst ` set pre'"
      and ysuf: "fst y \<notin> fst ` set suf"
      by auto
    let ?h2 = "?h1\<lparr>cells := (cells ?h1)(fst y \<mapsto> ny\<lparr>next_node := next_node nx\<rparr>)\<rparr>"
    have c1: "cells ?h1 (fst y) = Some ny" using ny yx by (simp add: delete_Node_def)
    have "seg ?h1 (head_next_node this) (pre' @ [y]) (Some (fst x))
            = seg h (head_next_node this) (pre' @ [y]) (Some (fst x))"
      using dist(1) snoc by (intro seg_cells_eq) (simp add: delete_Node_def, blast)
    with sg have sg1: "seg ?h1 (head_next_node this) (pre' @ [y]) (Some (fst x))" by simp
    have sg2: "seg ?h2 (head_next_node this) (pre' @ [y]) (next_node nx)"
      using sg1 ypre c1 by (rule seg_snoc_upd)
    have "nodes ?h2 (next_node nx) suf = nodes h (next_node nx) suf"
      using dist(2) ysuf by (intro nodes_cells_eq) (simp add: delete_Node_def, blast)
    with nx(2) have sf: "seg ?h2 (next_node nx) suf None" by (simp add: nodes_def)
    from seg_appendI [OF sg2 sf] snoc have all: "nodes ?h2 (head_next_node this) (pre @ suf)"
      by (simp add: nodes_def)
    have ev: "EraseAfter h this (iter_after pre)
        = Inr (?h2, this\<lparr>size_field := size_field this - 1\<rparr>, iter_at suf)"
      using ne ny nx(1) c1 it snoc
      by (simp add: EraseAfter_def iter_after_def get_next_def set_next_def)
    have fx: "cells ?h2 (fst x) = None" using yx by (simp add: delete_Node_def)
    have nf: "next_free ?h2 = next_free h" by (simp add: delete_Node_def)
    from ev all fx nf show ?thesis by simp
  qed
qed

lemma EraseAfter_list_inv:
  assumes inv: "list_inv h this (pre @ x # suf)"
  shows "\<exists>h' this'. EraseAfter h this (iter_after pre) = Inr (h', this', iter_at suf)
           \<and> list_inv h' this' (pre @ suf)
           \<and> cells h' (fst x) = None
           \<and> next_free h' = next_free h
           \<and> size_field this' = size_field this - 1"
proof -
  from inv have nd: "nodes h (head_next_node this) (pre @ x # suf)"
    and sz: "unat (size_field this) = Suc (length (pre @ suf))"
    by (simp_all add: list_inv_def)
  from sz have ne: "\<not> IsEmpty this" by (auto simp: IsEmpty_def)
  from EraseAfter_nodes [OF nd ne] sz show ?thesis
    by (auto simp: list_inv_def unat_dec)
qed


lemma Clear_nodes:
  "nodes h (head_next_node this) ns \<Longrightarrow>
   \<exists>h'. Clear h this
          = Some (Inr (h', this\<lparr>head_next_node := None,
                                size_field := size_field this - of_nat (length ns)\<rparr>))
      \<and> next_free h' = next_free h
      \<and> (\<forall>a. cells h' a = (if a \<in> fst ` set ns then None else cells h a))"
proof (induction ns arbitrary: h this)
  case Nil
  then show ?case by (subst Clear.simps) (simp add: nodes_def)
next
  case (Cons x ns)
  from nodes_tail [OF Cons.prems] obtain n
    where n: "cells h (fst x) = Some n" "nodes h (next_node n) ns" by blast
  from Cons.prems have hd: "head_next_node this = Some (fst x)" by (simp add: nodes_def)
  let ?h1 = "delete_Node (fst x) h"
  let ?t1 = "this\<lparr>head_next_node := next_node n, size_field := size_field this - 1\<rparr>"
  have "nodes ?h1 (next_node n) ns = nodes h (next_node n) ns"
    using nodes_head_fresh [OF Cons.prems]
    by (intro nodes_cells_eq) (simp add: delete_Node_def, blast)
  with n(2) have "nodes ?h1 (head_next_node ?t1) ns" by simp
  from Cons.IH [OF this] obtain h'
    where h': "Clear ?h1 ?t1
          = Some (Inr (h', ?t1\<lparr>head_next_node := None,
                                size_field := size_field ?t1 - of_nat (length ns)\<rparr>))"
      "next_free h' = next_free ?h1"
      "\<forall>a. cells h' a = (if a \<in> fst ` set ns then None else cells ?h1 a)"
    by blast
  have step: "Clear h this = Clear ?h1 ?t1"
    using n(1) hd by (subst Clear.simps) simp
  have rec: "?t1\<lparr>head_next_node := None, size_field := size_field ?t1 - of_nat (length ns)\<rparr>
      = this\<lparr>head_next_node := None, size_field := size_field this - of_nat (length (x # ns))\<rparr>"
    by simp
  from h'(3) have cs: "\<forall>a. cells h' a = (if a \<in> fst ` set (x # ns) then None else cells h a)"
    by (auto simp: delete_Node_def)
  from h'(2) have nf: "next_free h' = next_free h" by (simp add: delete_Node_def)
  from step h'(1) rec cs nf show ?case by metis
qed

lemma InsertAfter_result:
  assumes ok: "heap_ok h" and nd: "nodes h (head_next_node this) (pre @ suf)"
  shows "\<exists>h' this'. InsertAfter h this (iter_after pre) v = Inr (h', this', Some (Cell (next_free h)))
           \<and> nodes h' (head_next_node this') (pre @ [(next_free h, v)])
           \<and> size_field this' = size_field this + 1"
proof -
  let ?a = "next_free h"
  let ?h1 = "snd (new_Node v None h)"
  from nd have "seg h (head_next_node this) (pre @ suf) None" by (simp add: nodes_def)
  then obtain r where r: "seg h (head_next_node this) pre r" unfolding seg_append by blast
  have fresh: "?a \<notin> fst ` set pre"
  proof
    assume "?a \<in> fst ` set pre"
    with r have "cells h ?a \<noteq> None" by (blast dest: seg_allocated)
    with ok show False by (auto simp: heap_ok_def)
  qed
  show ?thesis
  proof (cases pre rule: rev_cases)
    case Nil
    then show ?thesis
      by (simp add: InsertAfter_def end_iter_def iter_after_def new_Node_def set_next_def get_next_def nodes_def)
  next
    case (snoc pre' y)
    from r snoc have sg: "seg h (head_next_node this) (pre' @ [y]) r" by simp
    from seg_last_cell [OF sg] obtain ny where ny: "cells h (fst y) = Some ny" by blast
    from fresh snoc have ya: "fst y \<noteq> ?a" by auto
    from nd have "distinct (map fst (pre @ suf))" by (rule nodes_distinct)
    with snoc have ypre: "fst y \<notin> fst ` set pre'" by auto
    have c1: "cells ?h1 (fst y) = Some ny" using ny ya by (simp add: new_Node_def)
    have "seg ?h1 (head_next_node this) (pre' @ [y]) r = seg h (head_next_node this) (pre' @ [y]) r"
      using fresh snoc by (intro seg_cells_eq) (simp add: new_Node_def, blast)
    with sg have sg1: "seg ?h1 (head_next_node this) (pre' @ [y]) r" by simp
    let ?h2 = "?h1\<lparr>cells := (cells ?h1)(fst y \<mapsto> ny\<lparr>next_node := Some ?a\<rparr>)\<rparr>"
    have sg2: "seg ?h2 (head_next_node this) (pre' @ [y]) (Some ?a)"
      using sg1 ypre c1 by (rule seg_snoc_upd)
    have nw: "seg ?h2 (Some ?a) [(?a, v)] None" using ya by (simp add: new_Node_def)
    from seg_appendI [OF sg2 nw] snoc
    have all: "nodes ?h2 (head_next_node this) (pre @ [(?a, v)])" by (simp add: nodes_def)
    have ev: "InsertAfter h this (iter_after pre) v
        = Inr (?h2, this\<lparr>size_field := size_field this + 1\<rparr>, Some (Cell ?a))"
      using ny ya snoc
      by (simp add: InsertAfter_def end_iter_def iter_after_def new_Node_def set_next_def get_next_def)
    from ev all show ?thesis by simp
  qed
qed

section \<open>The const accessors and the algorithms behind the comparisons\<close>

text \<open>No call of a const accessor returns.\<close>

lemma const_accessor_call_no_result: "const_accessor_call f this \<noteq> Some it"
proof
  assume r: "const_accessor_call f this = Some it"
  show False
    by (rule const_accessor_call.raw_induct [where P = "\<lambda>f this it. False", OF _ r])
      (simp split: const_accessor.splits)
qed

lemma const_accessor_call_None: "const_accessor_call f this = None"
  using const_accessor_call_no_result [of f this] by (cases "const_accessor_call f this") auto

lemma op_eq_result:
  "op_eq h lhs rhs = (if GetSize lhs = GetSize rhs then None else Some (Inr False))"
  by (simp add: op_eq_def cbegin_def const_accessor_call_None)

lemma op_lt_None: "op_lt h lhs rhs = None"
  by (simp add: op_lt_def begin_const_def const_accessor_call_None)

lemma op_ge_None: "op_ge h lhs rhs = None"
  by (simp add: op_ge_def op_lt_None negate_def)

lemma op_ge_ignores_rhs: "op_ge h lhs rhs = op_ge h lhs rhs'"
  by (simp add: op_ge_def)

lemma copy_of_nonempty_fails:
  "size_field other \<noteq> 0 \<Longrightarrow> SingleLinkedList_copy d h other = Some (Inl AssertionFailed)"
  by (simp add: SingleLinkedList_copy_def)

lemma copy_of_empty_diverges:
  "size_field other = 0 \<Longrightarrow> SingleLinkedList_copy d h other = None"
  by (simp add: SingleLinkedList_copy_def begin_const_def const_accessor_call_None)

lemma copy_never_succeeds: "SingleLinkedList_copy d h other \<noteq> Some (Inr r)"
  by (simp add: SingleLinkedList_copy_def begin_const_def const_accessor_call_None Let_def)

text \<open>
  The algorithms themselves are sound on well-formed chains when they are given the
  iterators that the non-const accessors return: \<^verbatim>\<open>std::equal\<close> compares the value
  sequences, and a list is never lexicographically less than itself.
\<close>

lemma std_equal_nodes:
  "nodes h p ns \<Longrightarrow> nodes h q ms \<Longrightarrow> length ns \<le> length ms \<Longrightarrow>
   std_equal h l1 l2 (map_option Cell p) None (map_option Cell q)
     = Some (Inr (map snd ns = take (length ns) (map snd ms)))"
proof (induction ns arbitrary: p q ms)
  case Nil
  then show ?case by (subst std_equal.simps) (simp add: nodes_def)
next
  case (Cons x ns)
  from Cons.prems(3) obtain y ms' where ms: "ms = y # ms'" by (cases ms) auto
  from nodes_tail [OF Cons.prems(1)] obtain n
    where n: "cells h (fst x) = Some n" "node_value n = snd x" "nodes h (next_node n) ns" by blast
  from Cons.prems(2) ms have "nodes h q (y # ms')" by simp
  from nodes_tail [OF this] obtain m
    where m: "cells h (fst y) = Some m" "node_value m = snd y" "nodes h (next_node m) ms'" by blast
  from Cons.prems(1) have p: "p = Some (fst x)" by (simp add: nodes_def)
  from Cons.prems(2) ms have q: "q = Some (fst y)" by (simp add: nodes_def)
  from Cons.prems(3) ms have le: "length ns \<le> length ms'" by simp
  note IH = Cons.IH [OF n(3) m(3) le]
  show ?case
  proof (cases "snd x = snd y")
    case True
    with p q n m IH ms show ?thesis
      by (subst std_equal.simps) (simp add: iter_deref_def iter_inc_def get_next_def)
  next
    case False
    with p q n m ms show ?thesis
      by (subst std_equal.simps) (simp add: iter_deref_def iter_inc_def get_next_def)
  qed
qed

lemma lexicographical_compare_same:
  "nodes h p ns \<Longrightarrow>
   lexicographical_compare h l1 l2 (map_option Cell p) None (map_option Cell p) None
     = Some (Inr False)"
proof (induction ns arbitrary: p)
  case Nil
  then show ?case by (subst lexicographical_compare.simps) (simp add: nodes_def)
next
  case (Cons x ns)
  from nodes_tail [OF Cons.prems] obtain n
    where n: "cells h (fst x) = Some n" "nodes h (next_node n) ns" by blast
  from Cons.prems have p: "p = Some (fst x)" by (simp add: nodes_def)
  from Cons.IH [OF n(2)] p n(1) show ?case
    by (subst lexicographical_compare.simps) (simp add: iter_deref_def iter_inc_def get_next_def)
qed

section \<open>The example states are well formed\<close>

lemma heap12_ok: "heap_ok heap12"
  by (simp add: heap_ok_def heap12_def)

lemma list12_inv: "list_inv heap12 list12 [(0, 1), (1, 2)]"
  by (simp add: list_inv_def nodes_def heap12_def list12_def)

lemma listA_inv: "list_inv heapAB listA [(0, 1)]"
  by (simp add: list_inv_def nodes_def heapAB_def listA_def)

lemma listB_inv: "list_inv heapAB listB [(1, 2)]"
  by (simp add: list_inv_def nodes_def heapAB_def listB_def)

text \<open>\<^verbatim>\<open>SingleLinkedList<unsigned> l{1, 2};\<close> started in the empty store gives \<open>list12\<close>.\<close>

lemma init12: "SingleLinkedList_init g 0 [1, 2] empty_heap = Some (Inr (heap12, list12))"
  by (simp add: SingleLinkedList_init_def AddToHead_def adopt_tmp_def swap_lists_def Clear.simps
      SingleLinkedList_default_def get_next_def set_next_def new_Node_def empty_heap_def
      heap12_def list12_def fun_upd_twist)

lemma size_inc_ne: "Suc (unat (w :: 64 word)) < 2 ^ 64 \<Longrightarrow> w + 1 \<noteq> 0"
  using unat_inc [of w] by (metis Zero_not_Suc unat_0)

lemma list_inv_IsEmpty: "list_inv h this ns \<Longrightarrow> IsEmpty this \<longleftrightarrow> ns = []"
  by (auto simp: list_inv_def IsEmpty_def unat_eq_zero)

section \<open>Insertion after a position\<close>

text \<open>
  Claim C1 says that \<^verbatim>\<open>InsertAfter(pos, value)\<close> splices the new node in between
  \<open>pos\<close> and the old suffix. The code links the new node to \<^verbatim>\<open>nullptr\<close>, so the
  old suffix is cut off (lemma \<open>InsertAfter_result\<close>). On the list \<open>1, 2\<close> with
  \<open>pos = begin()\<close> and value 9 the chain afterwards is \<open>1, 9\<close>, not \<open>1, 9, 2\<close>;
  the returned iterator does reference the new node, and the count becomes 3.
\<close>

theorem InsertAfter_mid_example:
  "\<exists>h'. InsertAfter heap12 list12 (begin_iter list12) 9
           = Inr (h', \<lparr>head_value = 0, head_next_node = Some 0, size_field = 3\<rparr>, Some (Cell 2))
       \<and> nodes h' (Some 0) [(0, 1), (2, 9)]
       \<and> \<not> nodes h' (Some 0) [(0, 1), (2, 9), (1, 2)]"
  by (simp add: InsertAfter_def end_iter_def begin_iter_def new_Node_def set_next_def get_next_def
      heap12_def list12_def nodes_def)

section \<open>The ordering operators\<close>

text \<open>
  Claim C2 says that \<open>A >= B\<close> returns the negation of \<open>A < B\<close>. The code evaluates
  \<^verbatim>\<open>!(lhs < lhs)\<close>, which does not read \<open>rhs\<close> at all, and \<^verbatim>\<open>operator<\<close> starts with
  a call of the const \<^verbatim>\<open>begin()\<close>, which does not return. For \<open>A\<close> holding 1 and
  \<open>B\<close> holding 2: neither \<open>A < B\<close> nor \<open>A >= B\<close> returns, \<open>A >= B\<close> is the same
  computation as \<open>A >= A\<close>, and on the iterators of the non-const accessors the
  comparison \<open>A < B\<close> is true while the expression \<^verbatim>\<open>!(lhs < lhs)\<close> is true as well.
\<close>

theorem op_ge_example:
  "op_lt heapAB listA listB = None
   \<and> op_ge heapAB listA listB = None
   \<and> op_ge heapAB listA listB = op_ge heapAB listA listA
   \<and> lexicographical_compare heapAB listA listB (begin_iter listA) end_iter (begin_iter listB) end_iter
       = Some (Inr True)
   \<and> negate (lexicographical_compare heapAB listA listA
               (begin_iter listA) end_iter (begin_iter listA) end_iter)
       = Some (Inr True)"
  by (simp add: op_lt_None op_ge_None negate_def lexicographical_compare.simps begin_iter_def
      end_iter_def iter_deref_def iter_inc_def get_next_def heapAB_def listA_def listB_def)

section \<open>The count invariant\<close>

text \<open>
  Claim C3 says that every public operation keeps the stored count equal to the number
  of nodes reachable from the sentinel. \<^verbatim>\<open>InsertAfter\<close> does not: it increments the
  count while it drops the nodes behind the position. On the list \<open>1, 2\<close>, built by the
  initializer-list constructor in the empty store, \<^verbatim>\<open>InsertAfter(before_begin(), 9)\<close>
  leaves one reachable node and a count of 3, a state in which the invariant holds for no
  sequence of nodes.
\<close>

theorem InsertAfter_count_example:
  "SingleLinkedList_init 0 0 [1, 2] empty_heap = Some (Inr (heap12, list12))
   \<and> (\<exists>h'. InsertAfter heap12 list12 before_begin 9
           = Inr (h', \<lparr>head_value = 0, head_next_node = Some 2, size_field = 3\<rparr>, Some (Cell 2))
       \<and> nodes h' (Some 2) [(2, 9)]
       \<and> GetSize \<lparr>head_value = 0, head_next_node = Some 2, size_field = 3\<rparr> = 3
       \<and> (\<forall>ns. \<not> list_inv h' \<lparr>head_value = 0, head_next_node = Some 2, size_field = 3\<rparr> ns))"
proof -
  let ?l = "\<lparr>head_value = 0, head_next_node = Some 2, size_field = 3\<rparr>"
  have "\<exists>h'. InsertAfter heap12 list12 before_begin 9 = Inr (h', ?l, Some (Cell 2))
       \<and> nodes h' (Some 2) [(2, 9)]"
    by (simp add: InsertAfter_def end_iter_def before_begin_def new_Node_def set_next_def get_next_def
        heap12_def list12_def nodes_def)
  then obtain h' where h': "InsertAfter heap12 list12 before_begin 9 = Inr (h', ?l, Some (Cell 2))"
    "nodes h' (Some 2) [(2, 9)]" by blast
  have "\<not> list_inv h' ?l ns" for ns
  proof
    assume "list_inv h' ?l ns"
    then have n: "nodes h' (Some 2) ns" and sz: "length ns = 3" by (simp_all add: list_inv_def)
    from nodes_unique [OF n h'(2)] sz show False by simp
  qed
  with h' init12 [of 0] show ?thesis by (simp add: GetSize_def)
qed

section \<open>Equality\<close>

text \<open>
  Claim C4 says that \<open>A == B\<close> returns true exactly when the counts agree and the
  elements agree pairwise. \<^verbatim>\<open>operator==\<close> returns false when the counts differ; when
  they agree it calls \<^verbatim>\<open>lhs.cbegin()\<close>, which does not return (lemma
  \<open>op_eq_result\<close>). So \<open>A == A\<close> has no result, for the one-element list \<open>A\<close> and for
  the empty list, neither has \<open>A != A\<close>, and neither has \<open>A == B\<close> for the one-element
  lists \<open>A\<close> holding 1 and \<open>B\<close> holding 2.
\<close>

theorem op_eq_example:
  "op_eq heapAB listA listA = None
   \<and> op_ne heapAB listA listA = None
   \<and> op_eq heapAB listA listB = None
   \<and> op_eq empty_heap (SingleLinkedList_default 0) (SingleLinkedList_default 0) = None
   \<and> op_eq heapAB listA (SingleLinkedList_default 0) = Some (Inr False)"
  by (simp add: op_ne_def negate_def op_eq_result GetSize_def listA_def listB_def
      SingleLinkedList_default_def)

section \<open>Insertion at the front\<close>

text \<open>
  Claim C5 says that \<^verbatim>\<open>InsertAfter(before_begin(), v)\<close> and \<^verbatim>\<open>PushFront(v)\<close> give the
  same sequence and count on every list. They give the same count, but on a non-empty
  list not the same sequence: from the list \<open>1, 2\<close> and \<open>v = 9\<close>, \<^verbatim>\<open>InsertAfter\<close>
  leaves the chain \<open>9\<close> and \<^verbatim>\<open>PushFront\<close> the chain \<open>9, 1, 2\<close>.
\<close>

theorem InsertAfter_vs_PushFront_example:
  "(\<exists>h'. InsertAfter heap12 list12 before_begin 9
            = Inr (h', \<lparr>head_value = 0, head_next_node = Some 2, size_field = 3\<rparr>, Some (Cell 2))
        \<and> nodes h' (Some 2) [(2, 9)])
   \<and> (\<exists>h'. PushFront 9 heap12 list12 = (h', \<lparr>head_value = 0, head_next_node = Some 2, size_field = 3\<rparr>)
        \<and> nodes h' (Some 2) [(2, 9), (0, 1), (1, 2)])"
  by (simp add: InsertAfter_def end_iter_def before_begin_def PushFront_def new_Node_def set_next_def
      get_next_def heap12_def list12_def nodes_def)

section \<open>Push-front and pop-front\<close>

text \<open>
  Claim C6. Let the chain of the list be \<open>ns\<close>, and let its stored count, whatever it
  is, not be the largest 64-bit value (so that \<^verbatim>\<open>++size_\<close> does not wrap to 0). Then
  \<^verbatim>\<open>PushFront(v)\<close> followed by \<^verbatim>\<open>PopFront()\<close> succeeds and gives back the very same
  list object: the same head link and count, over the same chain of nodes with the same
  values. The stored count need not agree with the length of the chain.
\<close>

theorem PushFront_PopFront_inverse:
  assumes ok: "heap_ok h" and nd: "nodes h (head_next_node this) ns"
    and nowrap: "size_field this + 1 \<noteq> 0"
  shows "\<exists>h' this'. PopFront (fst (PushFront v h this)) (snd (PushFront v h this)) = Inr (h', this')
           \<and> this' = this \<and> GetSize this' = GetSize this
           \<and> nodes h' (head_next_node this') ns"
proof -
  let ?a = "next_free h"
  let ?h' = "h\<lparr>next_free := Suc ?a\<rparr>"
  from ok have "cells h ?a = None" by (simp add: heap_ok_def)
  then have "(cells h)(?a := None) = cells h" by (simp add: fun_eq_iff)
  with nowrap
  have ev: "PopFront (fst (PushFront v h this)) (snd (PushFront v h this)) = Inr (?h', this)"
    by (simp add: PopFront_def PushFront_def new_Node_def IsEmpty_def delete_Node_def)
  have "nodes ?h' (head_next_node this) ns = nodes h (head_next_node this) ns"
    by (intro nodes_cells_eq) simp
  with nd have "nodes ?h' (head_next_node this) ns" by simp
  with ev show ?thesis by simp
qed

theorem PushFront_PopFront_inverse_witness:
  "heap_ok heap12 \<and> nodes heap12 (head_next_node list12) [(0, 1), (1, 2)]
   \<and> size_field list12 + 1 \<noteq> 0
   \<and> (\<exists>h'. PopFront (fst (PushFront 7 heap12 list12)) (snd (PushFront 7 heap12 list12))
               = Inr (h', list12)
          \<and> nodes h' (head_next_node list12) [(0, 1), (1, 2)])"
proof -
  have nd: "nodes heap12 (head_next_node list12) [(0, 1), (1, 2)]"
    by (simp add: nodes_def heap12_def list12_def)
  have nw: "size_field list12 + 1 \<noteq> 0" by (simp add: list12_def)
  from PushFront_PopFront_inverse [OF heap12_ok nd nw, of 7] heap12_ok nd nw
  show ?thesis by auto
qed

section \<open>Erasing after a position\<close>

text \<open>
  Claim C7. Let the list be non-empty (\<^verbatim>\<open>IsEmpty()\<close> false), let its chain be
  \<open>pre @ x # suf\<close> and let \<open>pos\<close> reference the last node of \<open>pre\<close> (the sentinel
  when \<open>pre\<close> is empty), so that \<open>x\<close> is the successor of \<open>pos\<close>. Then
  \<^verbatim>\<open>EraseAfter(pos)\<close> succeeds, the chain afterwards is \<open>pre @ suf\<close> with every other
  node at its old address and the cell of \<open>x\<close> freed, the count has gone down by exactly
  1, and the returned iterator references the first node of \<open>suf\<close>, or is the end
  iterator when \<open>suf\<close> is empty. The stored count need not agree with the length of
  the chain.
\<close>

theorem EraseAfter_removes_successor:
  assumes nd: "nodes h (head_next_node this) (pre @ x # suf)" and ne: "\<not> IsEmpty this"
  shows "\<exists>h' this'. EraseAfter h this (iter_after pre) = Inr (h', this', iter_at suf)
           \<and> nodes h' (head_next_node this') (pre @ suf)
           \<and> cells h' (fst x) = None
           \<and> GetSize this' = GetSize this - 1
           \<and> unat (GetSize this') = unat (GetSize this) - 1"
proof -
  from EraseAfter_nodes [OF nd ne] obtain h' this'
    where r: "EraseAfter h this (iter_after pre) = Inr (h', this', iter_at suf)"
      "nodes h' (head_next_node this') (pre @ suf)" "cells h' (fst x) = None"
      "size_field this' = size_field this - 1"
    by blast
  from ne have "size_field this \<noteq> 0" by (simp add: IsEmpty_def)
  then have "unat (size_field this - 1) = unat (size_field this) - 1" by (rule unat_minus_one)
  with r show ?thesis by (simp add: GetSize_def)
qed

theorem EraseAfter_removes_successor_witness:
  "nodes heap12 (head_next_node list12) ([(0, 1)] @ (1, 2) # []) \<and> \<not> IsEmpty list12 \<and>
   (\<exists>h' this'. EraseAfter heap12 list12 (Some (Cell 0)) = Inr (h', this', None)
      \<and> nodes h' (head_next_node this') [(0, 1)] \<and> cells h' 1 = None \<and> GetSize this' = 1)"
proof -
  have nd: "nodes heap12 (head_next_node list12) ([(0, 1)] @ (1, 2) # [])"
    by (simp add: nodes_def heap12_def list12_def)
  have ne: "\<not> IsEmpty list12" by (simp add: IsEmpty_def list12_def)
  from EraseAfter_removes_successor [OF nd ne] nd ne
  show ?thesis by (auto simp: iter_after_def iter_at_def GetSize_def list12_def)
qed

section \<open>The copy constructor\<close>

text \<open>
  Claim C8 says that copy construction succeeds for every source list and yields an
  equal list that shares no node with the source. The constructor initialises its count
  with the count of the source and then asserts that this count is 0, so for a non-empty
  source the assertion fails; for an empty source it goes on to call the const
  \<^verbatim>\<open>begin()\<close> of the source, which does not return. No call of the copy constructor
  yields a list (lemma \<open>copy_never_succeeds\<close>).
\<close>

theorem copy_example:
  "SingleLinkedList_copy 0 heap12 list12 = Some (Inl AssertionFailed)
   \<and> SingleLinkedList_copy 0 empty_heap (SingleLinkedList_default 0) = None"
  by (simp add: copy_of_nonempty_fails copy_of_empty_diverges list12_def
      SingleLinkedList_default_def)

section \<open>Clearing\<close>

text \<open>
  On a list that satisfies the invariant of the data model \<^verbatim>\<open>Clear()\<close> returns with an
  empty chain and a count of 0, and it changes nothing when the list was empty already.
\<close>

lemma Clear_list_inv:
  assumes inv: "list_inv h this ns"
  shows "\<exists>h' this'. Clear h this = Some (Inr (h', this'))
           \<and> IsEmpty this' \<and> GetSize this' = 0 \<and> list_inv h' this' []
           \<and> (IsEmpty this \<longrightarrow> h' = h \<and> this' = this)"
proof (cases "ns = []")
  case True
  with inv have hd: "head_next_node this = None" and sz: "size_field this = 0"
    by (simp_all add: list_inv_def nodes_def unat_eq_zero)
  then have "Clear h this = Some (Inr (h, this))"
    by (subst Clear.simps) simp
  with hd sz show ?thesis
    by (simp add: IsEmpty_def GetSize_def list_inv_def nodes_def)
next
  case False
  with inv have ne: "\<not> IsEmpty this" by (simp add: list_inv_IsEmpty)
  from inv have nd: "nodes h (head_next_node this) ns"
    and sz: "unat (size_field this) = length ns"
    by (simp_all add: list_inv_def)
  let ?this' = "this\<lparr>head_next_node := None, size_field := size_field this - of_nat (length ns)\<rparr>"
  from Clear_nodes [OF nd] obtain h'
    where h': "Clear h this = Some (Inr (h', ?this'))" by blast
  from sz [symmetric] have "of_nat (length ns) = size_field this" by simp
  then have z: "size_field ?this' = 0" by simp
  then have "list_inv h' ?this' []" by (simp add: list_inv_def nodes_def)
  with h' z ne show ?thesis by (simp add: IsEmpty_def GetSize_def)
qed

text \<open>
  Claim C9 says that \<^verbatim>\<open>Clear()\<close> leaves every list with \<^verbatim>\<open>IsEmpty()\<close> true and
  \<^verbatim>\<open>GetSize()\<close> equal to 0. \<^verbatim>\<open>Clear\<close> decrements the count once for each node it
  frees, so it ends at 0 only when the count was the number of nodes (lemma
  \<open>Clear_nodes\<close>), and \<^verbatim>\<open>InsertAfter\<close> leaves lists in which it is not. For the list
  \<open>1, 2\<close> built by the initializer-list constructor in the empty store,
  \<^verbatim>\<open>InsertAfter(before_begin(), 9)\<close> followed by \<^verbatim>\<open>Clear()\<close> frees the one reachable
  node and ends with a count of 2, so \<^verbatim>\<open>IsEmpty()\<close> is false.
\<close>

theorem Clear_after_InsertAfter_example:
  "SingleLinkedList_init 0 0 [1, 2] empty_heap = Some (Inr (heap12, list12))
   \<and> (\<exists>h1 h2. InsertAfter heap12 list12 before_begin 9
                 = Inr (h1, \<lparr>head_value = 0, head_next_node = Some 2, size_field = 3\<rparr>,
                        Some (Cell 2))
          \<and> Clear h1 \<lparr>head_value = 0, head_next_node = Some 2, size_field = 3\<rparr>
                 = Some (Inr (h2, \<lparr>head_value = 0, head_next_node = None, size_field = 2\<rparr>))
          \<and> cells h2 2 = None)
   \<and> GetSize \<lparr>head_value = 0 :: nat, head_next_node = None, size_field = 2\<rparr> = 2
   \<and> \<not> IsEmpty \<lparr>head_value = 0 :: nat, head_next_node = None, size_field = 2\<rparr>"
proof -
  have "\<exists>h1 h2. InsertAfter heap12 list12 before_begin 9
                 = Inr (h1, \<lparr>head_value = 0, head_next_node = Some 2, size_field = 3\<rparr>,
                        Some (Cell 2))
          \<and> Clear h1 \<lparr>head_value = 0, head_next_node = Some 2, size_field = 3\<rparr>
                 = Some (Inr (h2, \<lparr>head_value = 0, head_next_node = None, size_field = 2\<rparr>))
          \<and> cells h2 2 = None"
    by (simp add: InsertAfter_def end_iter_def before_begin_def new_Node_def set_next_def
        get_next_def heap12_def list12_def Clear.simps delete_Node_def)
  with init12 [of 0] show ?thesis by (simp add: GetSize_def IsEmpty_def)
qed

section \<open>Erasing after the sentinel\<close>

text \<open>
  Claim C10. In every state \<^verbatim>\<open>EraseAfter(before_begin())\<close> and \<^verbatim>\<open>PopFront()\<close> have the
  same outcome: they fail alike, or they end in the same store and the same list object.
  When the list is non-empty (\<^verbatim>\<open>IsEmpty()\<close> false) and its chain is \<open>x # ns\<close>, both
  succeed, the chain afterwards is \<open>ns\<close>, the cell of the first node \<open>x\<close> is freed,
  and \<^verbatim>\<open>EraseAfter\<close> returns the iterator to the new first node. The stored count need
  not agree with the length of the chain.
\<close>

theorem EraseAfter_before_begin_eq_PopFront:
  assumes nd: "nodes h (head_next_node this) (x # ns)" and ne: "\<not> IsEmpty this"
  shows "map_sum id (\<lambda>(h', this', it). (h', this')) (EraseAfter h this before_begin)
           = PopFront h this
       \<and> (\<exists>h' this'. EraseAfter h this before_begin = Inr (h', this', iter_at ns)
             \<and> PopFront h this = Inr (h', this')
             \<and> nodes h' (head_next_node this') ns
             \<and> cells h' (fst x) = None
             \<and> GetSize this' = GetSize this - 1)"
proof -
  from nd have nd': "nodes h (head_next_node this) ([] @ x # ns)" by simp
  from EraseAfter_nodes [OF nd' ne] obtain h' this'
    where r: "EraseAfter h this (Some Head) = Inr (h', this', iter_at ns)"
      "nodes h' (head_next_node this') ns" "cells h' (fst x) = None"
      "size_field this' = size_field this - 1"
    by (auto simp: iter_after_def)
  have same: "map_sum id (\<lambda>(h', this', it). (h', this')) (EraseAfter h this (Some Head))
      = PopFront h this"
    by (simp add: EraseAfter_def PopFront_def get_next_def set_next_def
        split: option.splits)
  with r show ?thesis by (simp add: before_begin_def GetSize_def)
qed

theorem EraseAfter_before_begin_eq_PopFront_witness:
  "nodes heap12 (head_next_node list12) ((0, 1) # [(1, 2)]) \<and> \<not> IsEmpty list12 \<and>
   (\<exists>h' this'. EraseAfter heap12 list12 before_begin = Inr (h', this', Some (Cell 1))
      \<and> PopFront heap12 list12 = Inr (h', this') \<and> nodes h' (head_next_node this') [(1, 2)]
      \<and> cells h' 0 = None \<and> GetSize this' = 1)"
proof -
  have nd: "nodes heap12 (head_next_node list12) ((0, 1) # [(1, 2)])"
    by (simp add: nodes_def heap12_def list12_def)
  have ne: "\<not> IsEmpty list12" by (simp add: IsEmpty_def list12_def)
  from EraseAfter_before_begin_eq_PopFront [OF nd ne] nd ne
  show ?thesis by (auto simp: iter_at_def GetSize_def list12_def)
qed

end
